theory Spec2Isabelle
  imports Main
begin

section \<open>Text primitives of the host language\<close>

text \<open>
  The extraction script \<^verbatim>\<open>src/data/format_for_finetuning.py\<close> works on Python
  strings. A string is modelled as a \<^typ>\<open>string\<close>, each \<^typ>\<open>char\<close> standing for
  the code point of the same number: the model covers text over the code points 0 to 255.
  On that range \<^verbatim>\<open>str.strip()\<close>, the regular-expression class \<^verbatim>\<open>\s\<close> and
  \<^verbatim>\<open>str.isspace()\<close> agree on the twelve characters listed in \<open>whitespace_chars\<close>,
  and \<^verbatim>\<open>str.lower()\<close> moves A to Z and the accented capitals 0xC0 to 0xDE (the
  multiplication sign 0xD7 apart) up by 0x20.
\<close>

definition NL :: char where
  "NL = CHR 0x0A"

definition TAB :: char where
  "TAB = CHR 0x09"

definition SP :: char where
  "SP = CHR 0x20"

definition whitespace_chars :: "char list" where
  "whitespace_chars =
     [CHR 0x09, CHR 0x0A, CHR 0x0B, CHR 0x0C, CHR 0x0D,
      CHR 0x1C, CHR 0x1D, CHR 0x1E, CHR 0x1F, CHR 0x20, CHR 0x85, CHR 0xA0]"

definition is_space :: "char \<Rightarrow> bool" where
  "is_space c = (c \<in> set whitespace_chars)"

text \<open>The class \<^verbatim>\<open>[^\S\n]\<close>: whitespace other than the newline.\<close>

definition is_hspace :: "char \<Rightarrow> bool" where
  "is_hspace c = (is_space c \<and> c \<noteq> NL)"

definition is_nl :: "char \<Rightarrow> bool" where
  "is_nl c = (c = NL)"

text \<open>\<^verbatim>\<open>s.strip()\<close>: whitespace removed from both ends.\<close>

definition strip :: "string \<Rightarrow> string" where
  "strip s = rev (dropWhile is_space (rev (dropWhile is_space s)))"

definition lower_char :: "char \<Rightarrow> char" where
  "lower_char c =
     (let n = (of_char c :: nat)
      in if (65 \<le> n \<and> n \<le> 90) \<or> (192 \<le> n \<and> n \<le> 222 \<and> n \<noteq> 215)
         then char_of (n + 32) else c)"

text \<open>\<^verbatim>\<open>s.lower()\<close>.\<close>

definition lower :: "string \<Rightarrow> string" where
  "lower s = map lower_char s"

text \<open>\<^verbatim>\<open>s.startswith(p)\<close> and \<^verbatim>\<open>s.endswith(p)\<close>.\<close>

definition startswith :: "string \<Rightarrow> string \<Rightarrow> bool" where
  "startswith s p = (take (length p) s = p)"

definition endswith :: "string \<Rightarrow> string \<Rightarrow> bool" where
  "endswith s p = (length p \<le> length s \<and> drop (length s - length p) s = p)"

text \<open>\<^verbatim>\<open>s.replace("\t", " ")\<close>.\<close>

definition replace_tabs :: "string \<Rightarrow> string" where
  "replace_tabs s = map (\<lambda>c. if c = TAB then SP else c) s"

text \<open>\<^verbatim>\<open>sep.join(xs)\<close>.\<close>

fun join :: "string \<Rightarrow> string list \<Rightarrow> string" where
  "join sep [] = []"
| "join sep [x] = x"
| "join sep (x # y # ys) = x @ sep @ join sep (y # ys)"

text \<open>
  \<^verbatim>\<open>re.sub\<close> for a pattern of the shape \<^verbatim>\<open>C{k,}\<close> (\<open>k\<close> at least 1) over a
  character class \<open>C\<close>: the scan goes left to right; where at least \<open>k\<close> characters of
  the class start, the whole run (the quantifier is greedy) is replaced by \<open>repl\<close> and
  the scan resumes after it; elsewhere the character is copied and the scan moves one
  position on. \<^verbatim>\<open>[^\S\n]+\<close> is the case \<open>k = 1\<close>, \<^verbatim>\<open>\n{3,}\<close> the case \<open>k = 3\<close>.
\<close>

function re_sub_run :: "(char \<Rightarrow> bool) \<Rightarrow> nat \<Rightarrow> string \<Rightarrow> string \<Rightarrow> string" where
  "re_sub_run C k repl [] = []"
| "re_sub_run C k repl (c # cs) =
     (if C c \<and> k \<le> length (takeWhile C (c # cs))
      then repl @ re_sub_run C k repl (dropWhile C cs)
      else c # re_sub_run C k repl cs)"
  by pat_completeness auto
termination
  by (relation "measure (\<lambda>(C, k, repl, s). length s)")
     (auto simp: length_dropWhile_le less_Suc_eq_le)

section \<open>Helpers of the script\<close>

text \<open>
  \<^verbatim>\<open>clean_text\<close>:
  \<^verbatim>\<open>
  if not text: return ""
  text = text.strip()
  text = text.replace("\t", " ")
  text = re.sub(r"[^\S\n]+", " ", text)
  text = re.sub(r"\n{3,}", "\n\n", text)
  return text.strip()
  \<close>
\<close>

definition clean_text :: "string \<Rightarrow> string" where
  "clean_text text =
     (if text = [] then []
      else strip (re_sub_run is_nl 3 [NL, NL]
                   (re_sub_run is_hspace 1 [SP] (replace_tabs (strip text)))))"

definition q_starts :: "string list" where
  "q_starts =
     [''what'', ''how'', ''is '', [CHR ''i'', CHR ''s'', CHR 0x0A],
      ''can '', [CHR ''c'', CHR ''a'', CHR ''n'', CHR 0x0A], ''does'', ''do '',
      ''are '', ''which'', ''who'', ''where'', ''when'', ''why'',
      ''i would like to'', ''i want to'', ''please tell'',
      ''1.'', ''1 .'', ''1-'']"

text \<open>
  \<^verbatim>\<open>is_question\<close>: the checks in the order of the source, each returning early.
\<close>

definition is_question :: "string \<Rightarrow> bool" where
  "is_question text =
     (let t = strip text
      in if t = [] then False
         else if endswith t ''?'' then True
         else if list_ex (\<lambda>qs. startswith (lower t) qs) q_starts then True
         else if CHR ''?'' \<in> set (take 80 t) then True
         else False)"

section \<open>Worksheets\<close>

text \<open>
  The value of a spreadsheet cell as the loader hands it over: nothing, a text, an
  integer or a truth value (floating-point numbers and dates are left out of the model).
  A worksheet is the list of its rows, top to bottom, row \<open>i\<close> of the list being row
  number \<open>i + 1\<close> of the sheet; a row is the list of its cells, left to right.
\<close>

datatype cell_value = CNone | CStr string | CInt int | CBool bool

type_synonym worksheet = "cell_value list list"

function str_nat :: "nat \<Rightarrow> string" where
  "str_nat n =
     (if n < 10 then [char_of (48 + n)]
      else str_nat (n div 10) @ [char_of (48 + n mod 10)])"
  by pat_completeness auto
termination
  by (relation "measure id") auto

declare str_nat.simps [simp del]

text \<open>\<^verbatim>\<open>str(cell.value)\<close>.\<close>

fun py_str :: "cell_value \<Rightarrow> string" where
  "py_str CNone = ''None''"
| "py_str (CStr s) = s"
| "py_str (CInt i) = (if i < 0 then CHR ''-'' # str_nat (nat (- i)) else str_nat (nat i))"
| "py_str (CBool b) = (if b then ''True'' else ''False'')"

text \<open>The truth value of \<^verbatim>\<open>cell.value\<close> in a condition.\<close>

fun truthy :: "cell_value \<Rightarrow> bool" where
  "truthy CNone = False"
| "truthy (CStr s) = (s \<noteq> [])"
| "truthy (CInt i) = (i \<noteq> 0)"
| "truthy (CBool b) = b"

section \<open>Product name and row units\<close>

text \<open>
  The scan of the first row for the product name:
  \<^verbatim>\<open>
  for cell in row:
      if cell.value and not str(cell.value).strip().lower() == "main":
          val = str(cell.value).strip()
          if not val.startswith("="):
              product_name = val
              break
  \<close>
\<close>

fun scan_title_row :: "cell_value list \<Rightarrow> string \<Rightarrow> string" where
  "scan_title_row [] product_name = product_name"
| "scan_title_row (cell # cells) product_name =
     (if truthy cell \<and> \<not> lower (strip (py_str cell)) = ''main''
      then (let val = strip (py_str cell)
            in if \<not> startswith val ''='' then val
               else scan_title_row cells product_name)
      else scan_title_row cells product_name)"

definition infer_product_name :: "worksheet \<Rightarrow> string \<Rightarrow> string" where
  "infer_product_name ws sheet_name =
     (case ws of [] \<Rightarrow> sheet_name | row # _ \<Rightarrow> scan_title_row row sheet_name)"

text \<open>
  The three tests of that scan on one cell, as a predicate: the cells at which the loop
  assigns \<open>product_name\<close> and breaks.
\<close>

definition scan_accepts :: "cell_value \<Rightarrow> bool" where
  "scan_accepts cell =
     (truthy cell \<and> lower (strip (py_str cell)) \<noteq> ''main''
      \<and> \<not> startswith (strip (py_str cell)) ''='')"

text \<open>
  The inner loop of the flattener, \<open>row_texts\<close> being the list built so far:
  \<^verbatim>\<open>
  for cell in row:
      if cell.value is None: continue
      val = str(cell.value).strip()
      if val.startswith("=") or val.lower() == "main" or not val: continue
      row_texts.append(val)
  \<close>
\<close>

fun collect_row_texts :: "cell_value list \<Rightarrow> string list \<Rightarrow> string list" where
  "collect_row_texts [] row_texts = row_texts"
| "collect_row_texts (cell # cells) row_texts =
     (if cell = CNone then collect_row_texts cells row_texts
      else (let val = strip (py_str cell)
            in if startswith val ''='' \<or> lower val = ''main'' \<or> val = []
               then collect_row_texts cells row_texts
               else collect_row_texts cells (row_texts @ [val])))"

text \<open>
  The outer loop. \<open>rows_data\<close> is the dictionary from row number to combined text, kept
  as the list of its items in insertion order; the row numbers of a sheet are distinct,
  so every assignment adds a key.
\<close>

fun collect_rows :: "nat \<Rightarrow> worksheet \<Rightarrow> (nat \<times> string) list \<Rightarrow> (nat \<times> string) list" where
  "collect_rows n [] rows_data = rows_data"
| "collect_rows n (row # rows) rows_data =
     (let row_texts = collect_row_texts row []
      in if row_texts \<noteq> []
         then collect_rows (Suc n) rows
                (rows_data @
                   [(n, if length row_texts > 1 then join '' | '' row_texts
                        else hd row_texts)])
         else collect_rows (Suc n) rows rows_data)"

section \<open>Segmentation into question/answer pairs\<close>

record qa_pair =
  question :: string
  answer :: string
  product :: string
  sheet :: string

record seg_state =
  qa_pairs :: "qa_pair list"
  current_question :: "string option"
  current_answer_parts :: "string list"

text \<open>\<open>current_question\<close> in a condition: neither \<^verbatim>\<open>None\<close> nor the empty string.\<close>

fun pending :: "string option \<Rightarrow> bool" where
  "pending None = False"
| "pending (Some q) = (q \<noteq> [])"

text \<open>
  The block that saves the pending pair, the same before a new question and after the
  last row:
  \<^verbatim>\<open>
  if current_question and current_answer_parts:
      answer = "\n".join(current_answer_parts)
      answer = clean_text(answer)
      if answer:
          qa_pairs.append({"question": clean_text(current_question), "answer": answer,
                           "product": product_name, "sheet": sheet_name})
  \<close>
\<close>

definition save_pending :: "string \<Rightarrow> string \<Rightarrow> seg_state \<Rightarrow> qa_pair list" where
  "save_pending product_name sheet_name st =
     (case current_question st of
        None \<Rightarrow> qa_pairs st
      | Some q \<Rightarrow>
          if q \<noteq> [] \<and> current_answer_parts st \<noteq> []
          then (let answer = clean_text (join [NL] (current_answer_parts st))
                in if answer \<noteq> []
                   then qa_pairs st @
                          [\<lparr>question = clean_text q, answer = answer,
                            product = product_name, sheet = sheet_name\<rparr>]
                   else qa_pairs st)
          else qa_pairs st)"

text \<open>One pass of the loop body over a row unit \<open>(row_num, text)\<close>.\<close>

definition seg_step :: "string \<Rightarrow> string \<Rightarrow> seg_state \<Rightarrow> nat \<times> string \<Rightarrow> seg_state" where
  "seg_step product_name sheet_name st row_unit =
     (let text = clean_text (snd row_unit)
      in if text = [] then st
         else if is_question text
         then \<lparr>qa_pairs = save_pending product_name sheet_name st,
               current_question = Some text,
               current_answer_parts = []\<rparr>
         else if pending (current_question st)
         then st\<lparr>current_answer_parts := current_answer_parts st @ [text]\<rparr>
         else st)"

definition seg_init :: seg_state where
  "seg_init = \<lparr>qa_pairs = [], current_question = None, current_answer_parts = []\<rparr>"

definition segment :: "string \<Rightarrow> string \<Rightarrow> (nat \<times> string) list \<Rightarrow> qa_pair list" where
  "segment product_name sheet_name rows =
     save_pending product_name sheet_name
       (foldl (seg_step product_name sheet_name) seg_init rows)"

text \<open>
  \<^verbatim>\<open>extract_qa_from_sheet\<close>: product name, row units, the early return on a sheet
  without text, the sort by row number, the title row, the segmentation. The items of
  the dictionary are sorted as pairs; their row numbers being distinct, that is the sort
  by row number.
\<close>

definition extract_qa_from_sheet :: "worksheet \<Rightarrow> string \<Rightarrow> qa_pair list" where
  "extract_qa_from_sheet ws sheet_name =
     (let product_name = infer_product_name ws sheet_name;
          rows_data = collect_rows 1 ws []
      in if rows_data = [] then []
         else (let sorted_rows = sort_key fst rows_data;
                   start_idx = (case sorted_rows of
                                  [] \<Rightarrow> 0
                                | r # _ \<Rightarrow>
                                    if strip (snd r) = strip product_name then 1 else (0::nat))
               in segment product_name sheet_name (drop start_idx sorted_rows)))"

section \<open>The run over the workbook\<close>

definition SKIP_SHEETS :: "string list" where
  "SKIP_SHEETS = [''Main'', ''Rate Sheet July 1 2024'', ''Sheet1'']"

definition SYSTEM_PROMPT :: string where
  "SYSTEM_PROMPT =
     ''You are a helpful customer support assistant for NUST Bank. '' @
     ''Answer the customer's question accurately and concisely using '' @
     ''the bank's product knowledge.''"

text \<open>
  A workbook is the list of its sheets in the order of \<^verbatim>\<open>wb.sheetnames\<close>, each name
  with the worksheet that \<^verbatim>\<open>wb[sheet_name]\<close> returns (sheet names are unique in a
  workbook). The loop of \<^verbatim>\<open>main\<close> over the sheets, \<open>all_qa\<close> being the collection
  so far:
  \<^verbatim>\<open>
  for sheet_name in wb.sheetnames:
      if sheet_name in SKIP_SHEETS:
          skipped.append(sheet_name)
          continue
      ws = wb[sheet_name]
      pairs = extract_qa_from_sheet(ws, sheet_name)
      all_qa.extend(pairs)
  \<close>
\<close>

type_synonym workbook = "(string \<times> worksheet) list"

fun extract_sheets :: "workbook \<Rightarrow> qa_pair list \<Rightarrow> qa_pair list" where
  "extract_sheets [] all_qa = all_qa"
| "extract_sheets ((sheet_name, ws) # wb) all_qa =
     (if sheet_name \<in> set SKIP_SHEETS then extract_sheets wb all_qa
      else extract_sheets wb (all_qa @ extract_qa_from_sheet ws sheet_name))"

text \<open>
  The external FAQ: the list under \<^verbatim>\<open>"categories"\<close> (empty when the key is absent),
  each category with its optional name and the entries under \<^verbatim>\<open>"questions"\<close> (empty
  when absent). The en dash of the product label lies outside the 8-bit range and is
  carried as the three bytes of its UTF-8 form.
\<close>

record faq_item =
  item_question :: string
  item_answer :: string

record faq_category =
  category :: "string option"
  questions :: "faq_item list"

definition EN_DASH :: string where
  "EN_DASH = [CHR 0xE2, CHR 0x80, CHR 0x93]"

definition FAQ_SHEET :: string where
  "FAQ_SHEET = ''funds_transfer_app_features_faq.json''"

fun merge_questions :: "string \<Rightarrow> faq_item list \<Rightarrow> qa_pair list \<Rightarrow> qa_pair list" where
  "merge_questions cat_name [] all_qa = all_qa"
| "merge_questions cat_name (q # qs) all_qa =
     merge_questions cat_name qs
       (all_qa @
          [\<lparr>question = clean_text (item_question q),
            answer = clean_text (item_answer q),
            product = ''Mobile App '' @ EN_DASH @ '' '' @ cat_name,
            sheet = FAQ_SHEET\<rparr>])"

fun merge_faq :: "faq_category list \<Rightarrow> qa_pair list \<Rightarrow> qa_pair list" where
  "merge_faq [] all_qa = all_qa"
| "merge_faq (cat # cats) all_qa =
     (let cat_name = (case category cat of None \<Rightarrow> ''General'' | Some n \<Rightarrow> n)
      in merge_faq cats (merge_questions cat_name (questions cat) all_qa))"

text \<open>
  The run-wide collection: the sheets, then the FAQ when its file exists (\<open>None\<close> when
  it does not).
\<close>

definition collect_all :: "workbook \<Rightarrow> faq_category list option \<Rightarrow> qa_pair list" where
  "collect_all wb faq =
     (let all_qa = extract_sheets wb []
      in case faq of None \<Rightarrow> all_qa | Some cats \<Rightarrow> merge_faq cats all_qa)"

text \<open>
  The three output collections, as the records that are serialised line by line; the
  keys \<^verbatim>\<open>input\<close>, \<^verbatim>\<open>output\<close> and \<^verbatim>\<open>product\<close> of an instruction record are
  the fields \<open>input_field\<close>, \<open>output_field\<close> and \<open>product_field\<close>.
\<close>

record instruct_record =
  instruction :: string
  input_field :: string
  output_field :: string
  product_field :: string

record chat_message =
  role :: string
  content :: string

record chat_record =
  messages :: "chat_message list"

record outputs =
  json_all :: "qa_pair list"
  jsonl_instruct :: "instruct_record list"
  jsonl_chat :: "chat_record list"

definition instruct_of :: "qa_pair \<Rightarrow> instruct_record" where
  "instruct_of qa =
     \<lparr>instruction = question qa, input_field = [], output_field = answer qa,
      product_field = product qa\<rparr>"

definition chat_of :: "qa_pair \<Rightarrow> chat_record" where
  "chat_of qa =
     \<lparr>messages =
        [\<lparr>role = ''system'', content = SYSTEM_PROMPT\<rparr>,
         \<lparr>role = ''user'', content = question qa\<rparr>,
         \<lparr>role = ''assistant'', content = answer qa\<rparr>]\<rparr>"

definition write_outputs :: "qa_pair list \<Rightarrow> outputs" where
  "write_outputs all_qa =
     \<lparr>json_all = all_qa,
      jsonl_instruct = map instruct_of all_qa,
      jsonl_chat = map chat_of all_qa\<rparr>"

definition main :: "workbook \<Rightarrow> faq_category list option \<Rightarrow> outputs" where
  "main wb faq = write_outputs (collect_all wb faq)"

section \<open>The specification's wording, for comparison\<close>

text \<open>
  The question heuristic as the specification words it: a disjunction of three tests on
  the trimmed text over a set of phrases.
\<close>

definition spec_phrases :: "string set" where
  "spec_phrases =
     {''what'', ''how'', ''is '', ''is'' @ [NL], ''can '', ''can'' @ [NL], ''does'', ''do '',
      ''are '', ''which'', ''who'', ''where'', ''when'', ''why'',
      ''i would like to'', ''i want to'', ''please tell'', ''1.'', ''1 .'', ''1-''}"

definition is_question_spec :: "string \<Rightarrow> bool" where
  "is_question_spec text =
     (endswith (strip text) ''?''
      \<or> (\<exists>p \<in> spec_phrases. startswith (lower (strip text)) p)
      \<or> CHR ''?'' \<in> set (take 80 (strip text)))"

text \<open>
  Normalisation as the specification words it, over the maximal runs of a string: the
  blocks of neighbouring characters that are all inside, or all outside, a class.
\<close>

function runs :: "(char \<Rightarrow> bool) \<Rightarrow> string \<Rightarrow> string list" where
  "runs C [] = []"
| "runs C (c # cs) =
     (if C c then (c # takeWhile C cs) # runs C (dropWhile C cs)
      else (c # takeWhile (\<lambda>x. \<not> C x) cs) # runs C (dropWhile (\<lambda>x. \<not> C x) cs))"
  by pat_completeness auto
termination
  by (relation "measure (\<lambda>(C, s). length s)")
     (auto simp: length_dropWhile_le less_Suc_eq_le)

definition collapse_spaces_spec :: "string \<Rightarrow> string" where
  "collapse_spaces_spec s =
     concat (map (\<lambda>r. if list_all is_hspace r then [SP] else r) (runs is_hspace s))"

definition collapse_newlines_spec :: "string \<Rightarrow> string" where
  "collapse_newlines_spec s =
     concat (map (\<lambda>r. if list_all is_nl r \<and> 3 \<le> length r then [NL, NL] else r)
               (runs is_nl s))"

definition clean_text_spec :: "string \<Rightarrow> string" where
  "clean_text_spec text =
     (if text = [] then []
      else strip (collapse_newlines_spec (collapse_spaces_spec (replace_tabs (strip text)))))"

text \<open>
  The flattener as the specification words it: the cells that survive, their texts, and
  the row unit made of them.
\<close>

definition cell_text :: "cell_value \<Rightarrow> string" where
  "cell_text cell = strip (py_str cell)"

definition survives :: "cell_value \<Rightarrow> bool" where
  "survives cell =
     (cell \<noteq> CNone \<and> cell_text cell \<noteq> [] \<and> \<not> startswith (cell_text cell) ''=''
      \<and> lower (cell_text cell) \<noteq> ''main'')"

definition row_unit_spec :: "cell_value list \<Rightarrow> string option" where
  "row_unit_spec row =
     (case map cell_text (filter survives row) of
        [] \<Rightarrow> None
      | [t] \<Rightarrow> Some t
      | t # u # ts \<Rightarrow> Some (join '' | '' (t # u # ts)))"

fun flatten_spec :: "nat \<Rightarrow> worksheet \<Rightarrow> (nat \<times> string) list" where
  "flatten_spec n [] = []"
| "flatten_spec n (row # rows) =
     (case row_unit_spec row of
        None \<Rightarrow> flatten_spec (Suc n) rows
      | Some t \<Rightarrow> (n, t) # flatten_spec (Suc n) rows)"

text \<open>
  The product name as the specification words it: the text of the first cell of the
  first row that survives the same three tests, or else the sheet's name.
\<close>

definition product_name_spec :: "worksheet \<Rightarrow> string \<Rightarrow> string" where
  "product_name_spec ws sheet_name =
     (case ws of
        [] \<Rightarrow> sheet_name
      | row # _ \<Rightarrow>
          (case filter survives row of
             [] \<Rightarrow> sheet_name
           | cell # _ \<Rightarrow> cell_text cell))"

section \<open>Normal form of cleaned text\<close>

text \<open>
  Two predicates on strings used to describe the results of \<open>clean_text\<close>: every
  whitespace character other than a newline is a single space with no such character
  after it, and no newline is followed by two more.
\<close>

fun hs_ok :: "string \<Rightarrow> bool" where
  "hs_ok [] = True"
| "hs_ok (c # cs) = ((is_hspace c \<longrightarrow> c = SP \<and> (cs = [] \<or> \<not> is_hspace (hd cs))) \<and> hs_ok cs)"

fun nl_ok :: "string \<Rightarrow> bool" where
  "nl_ok [] = True"
| "nl_ok (c # cs) = (\<not> (c = NL \<and> 2 \<le> length (takeWhile is_nl cs)) \<and> nl_ok cs)"

section \<open>Invariant of the segmentation loop\<close>

text \<open>
  What holds of every pair the loop has emitted and of the question it holds pending,
  relative to the rows it is run on.
\<close>

definition emitted_ok :: "string \<Rightarrow> string \<Rightarrow> (nat \<times> string) list \<Rightarrow> qa_pair \<Rightarrow> bool" where
  "emitted_ok product_name sheet_name rows p =
     ((\<exists>r \<in> set rows. question p = clean_text (snd r))
      \<and> question p \<noteq> [] \<and> is_question (question p)
      \<and> answer p \<noteq> [] \<and> clean_text (answer p) = answer p
      \<and> product p = product_name \<and> sheet p = sheet_name)"

definition seg_inv :: "string \<Rightarrow> string \<Rightarrow> (nat \<times> string) list \<Rightarrow> seg_state \<Rightarrow> bool" where
  "seg_inv product_name sheet_name rows st =
     ((\<forall>p \<in> set (qa_pairs st). emitted_ok product_name sheet_name rows p)
      \<and> (\<forall>q. current_question st = Some q \<longrightarrow>
            q \<noteq> [] \<and> is_question q \<and> (\<exists>r \<in> set rows. q = clean_text (snd r))))"

section \<open>The question heuristic\<close>

lemma set_q_starts: "set q_starts = spec_phrases"
  by (simp add: q_starts_def spec_phrases_def NL_def)

lemma q_starts_nonempty: "p \<in> set q_starts \<Longrightarrow> p \<noteq> []"
  by (auto simp: q_starts_def)

lemma startswith_Nil: "startswith [] p = (p = [])"
  by (auto simp: startswith_def)

text \<open>
  Claim C2. For every text, \<open>is_question\<close> answers QUESTION exactly when the trimmed
  text ends with a question mark, or its lowercase form starts with one of the twenty
  fixed phrases, or a question mark stands among its first 80 characters; a text that
  is empty after trimming is never a question.
\<close>

theorem is_question_iff:
  "is_question text = is_question_spec text \<and> (strip text = [] \<longrightarrow> \<not> is_question text)"
proof (cases "strip text = []")
  case True
  have "\<not> (\<exists>p \<in> set q_starts. startswith (lower []) p)"
    using q_starts_nonempty by (auto simp: lower_def startswith_Nil)
  with True show ?thesis
    by (simp add: is_question_def is_question_spec_def endswith_def set_q_starts [symmetric])
next
  case False
  then show ?thesis
    by (auto simp: is_question_def is_question_spec_def Let_def list_ex_iff set_q_starts)
qed

theorem is_question_iff_witness:
  "strip ''  '' = [] \<and> \<not> is_question ''  '' \<and> is_question_spec ''How much''"
proof -
  have a: "strip ''  '' = []" by code_simp
  have b: "is_question ''How much''" by code_simp
  from a is_question_iff [of "''  ''"] have "\<not> is_question ''  ''" by blast
  moreover from b is_question_iff [of "''How much''"] have "is_question_spec ''How much''"
    by blast
  ultimately show ?thesis using a by blast
qed

section \<open>Segmentation scenarios\<close>

text \<open>
  Claim C5. The segmenter, run on the four row units of the savings scenario for sheet
  "Savings" with product "Savings Account", yields exactly the two pairs of the
  scenario, in that order.
\<close>

theorem savings_scenario:
  "segment ''Savings Account'' ''Savings''
     [(1, ''What is the minimum balance?''), (2, ''PKR 5,000 for savings accounts.''),
      (3, ''How do I open an account?''), (4, ''Visit any branch with your CNIC.'')] =
   [\<lparr>question = ''What is the minimum balance?'', answer = ''PKR 5,000 for savings accounts.'',
     product = ''Savings Account'', sheet = ''Savings''\<rparr>,
    \<lparr>question = ''How do I open an account?'', answer = ''Visit any branch with your CNIC.'',
     product = ''Savings Account'', sheet = ''Savings''\<rparr>]"
  by code_simp

section \<open>The run over the workbook: skipped sheets and outputs\<close>

lemma extract_sheets_append:
  "extract_sheets (wb1 @ wb2) all_qa = extract_sheets wb2 (extract_sheets wb1 all_qa)"
  by (induction wb1 arbitrary: all_qa) auto

text \<open>
  Claim C8. A sheet whose name is in the skip set contributes exactly 0 pairs to the
  run-wide collection, and the collection is the same as if the sheet were not in the
  workbook at all, whatever the sheet holds: nothing of it is flattened or segmented.
\<close>

theorem skipped_sheet_contributes_nothing:
  assumes "sheet_name \<in> set SKIP_SHEETS"
  shows "length (extract_sheets [(sheet_name, ws)] []) = 0
    \<and> extract_sheets (wb1 @ (sheet_name, ws) # wb2) all_qa = extract_sheets (wb1 @ wb2) all_qa
    \<and> collect_all (wb1 @ (sheet_name, ws) # wb2) faq = collect_all (wb1 @ wb2) faq"
proof -
  have "extract_sheets (wb1 @ (sheet_name, ws) # wb2) acc = extract_sheets (wb1 @ wb2) acc"
    for acc
    using assms by (simp add: extract_sheets_append)
  then show ?thesis
    using assms by (simp add: collect_all_def)
qed

theorem skipped_sheet_contributes_nothing_witness:
  "''Main'' \<in> set SKIP_SHEETS
   \<and> length (extract_sheets
               [(''Main'', [[CStr ''Title''], [CStr ''What is X?''], [CStr ''Y.'']])] []) = 0
   \<and> length (extract_sheets
               [(''Other'', [[CStr ''Title''], [CStr ''What is X?''], [CStr ''Y.'']])] []) = 1"
proof -
  have a: "''Main'' \<in> set SKIP_SHEETS" by (simp add: SKIP_SHEETS_def)
  have b: "length (extract_sheets
                     [(''Other'', [[CStr ''Title''], [CStr ''What is X?''], [CStr ''Y.'']])] []) = 1"
    by code_simp
  have "length (extract_sheets
                  [(''Main'', [[CStr ''Title''], [CStr ''What is X?''], [CStr ''Y.'']])] []) = 0"
    using skipped_sheet_contributes_nothing [OF a] by blast
  then show ?thesis using a b by blast
qed

text \<open>
  Claim C9. The instruction-format and the conversational-format collections each
  have as many records as the human-readable dump, in the same order: the i-th
  instruction record has the i-th pair's question as instruction, the empty string as
  input and the pair's answer as output; the i-th conversational record has exactly
  three messages, the fixed system prompt, the question as the user turn and the answer
  as the assistant turn.
\<close>

theorem outputs_correspond:
  "json_all (main wb faq) = collect_all wb faq
   \<and> length (jsonl_instruct (main wb faq)) = length (json_all (main wb faq))
   \<and> length (jsonl_chat (main wb faq)) = length (json_all (main wb faq))
   \<and> (\<forall>i < length (json_all (main wb faq)).
        instruction (jsonl_instruct (main wb faq) ! i) = question (json_all (main wb faq) ! i)
        \<and> input_field (jsonl_instruct (main wb faq) ! i) = []
        \<and> output_field (jsonl_instruct (main wb faq) ! i) = answer (json_all (main wb faq) ! i)
        \<and> messages (jsonl_chat (main wb faq) ! i) =
            [\<lparr>role = ''system'', content = SYSTEM_PROMPT\<rparr>,
             \<lparr>role = ''user'', content = question (json_all (main wb faq) ! i)\<rparr>,
             \<lparr>role = ''assistant'', content = answer (json_all (main wb faq) ! i)\<rparr>])"
  by (simp add: main_def write_outputs_def instruct_of_def chat_of_def)

theorem outputs_correspond_witness:
  "0 < length (json_all (main [(''Other'', [[CStr ''Title''], [CStr ''What is X?''], [CStr ''Y.'']])] None))
   \<and> instruction
       (jsonl_instruct (main [(''Other'', [[CStr ''Title''], [CStr ''What is X?''], [CStr ''Y.'']])] None) ! 0)
     = ''What is X?''
   \<and> messages
       (jsonl_chat (main [(''Other'', [[CStr ''Title''], [CStr ''What is X?''], [CStr ''Y.'']])] None) ! 0)
     = [\<lparr>role = ''system'', content = SYSTEM_PROMPT\<rparr>,
        \<lparr>role = ''user'', content = ''What is X?''\<rparr>,
        \<lparr>role = ''assistant'', content = ''Y.''\<rparr>]"
proof -
  let ?out = "main [(''Other'', [[CStr ''Title''], [CStr ''What is X?''], [CStr ''Y.'']])] None"
  have a: "0 < length (json_all ?out)" by code_simp
  have q: "question (json_all ?out ! 0) = ''What is X?''" by code_simp
  have r: "answer (json_all ?out ! 0) = ''Y.''" by code_simp
  from a outputs_correspond
    [of "[(''Other'', [[CStr ''Title''], [CStr ''What is X?''], [CStr ''Y.'']])]" None]
  have "instruction (jsonl_instruct ?out ! 0) = question (json_all ?out ! 0)
        \<and> messages (jsonl_chat ?out ! 0) =
            [\<lparr>role = ''system'', content = SYSTEM_PROMPT\<rparr>,
             \<lparr>role = ''user'', content = question (json_all ?out ! 0)\<rparr>,
             \<lparr>role = ''assistant'', content = answer (json_all ?out ! 0)\<rparr>]"
    by blast
  with a q r show ?thesis by simp
qed

section \<open>The flattener and the normalisation against the specification\<close>

lemma collect_row_texts_eq:
  "collect_row_texts row row_texts = row_texts @ map cell_text (filter survives row)"
  by (induction row arbitrary: row_texts) (auto simp: survives_def cell_text_def Let_def)

lemma collect_rows_eq:
  "collect_rows n ws rows_data = rows_data @ flatten_spec n ws"
proof (induction ws arbitrary: n rows_data)
  case Nil
  show ?case by simp
next
  case (Cons row ws)
  show ?case
  proof (cases "map cell_text (filter survives row)")
    case Nil
    then show ?thesis
      by (simp add: Cons.IH collect_row_texts_eq row_unit_spec_def)
  next
    case (Cons t ts)
    then show ?thesis
      by (cases ts) (simp_all add: Cons.IH collect_row_texts_eq row_unit_spec_def)
  qed
qed

lemma flatten_spec_keys:
  "sorted (map fst (flatten_spec n ws)) \<and> (\<forall>k \<in> set (map fst (flatten_spec n ws)). n \<le> k)"
proof (induction ws arbitrary: n)
  case Nil
  show ?case by simp
next
  case (Cons row ws)
  have "\<forall>k \<in> set (map fst (flatten_spec (Suc n) ws)). n \<le> k"
    using Cons.IH [of "Suc n"] by auto
  then show ?case
    using Cons.IH [of "Suc n"] by (auto split: option.splits)
qed

lemma sort_flatten_spec: "sort_key fst (flatten_spec n ws) = flatten_spec n ws"
  using flatten_spec_keys [of n ws] by (simp add: sort_key_id_if_sorted)

text \<open>
  Claim C6. For every row, the flattener drops the cells that are empty, that begin
  with the formula marker or whose trimmed text is "main" in any letter case; of the
  texts that survive it makes one row unit, joined with " | " from left to right when
  there are two or more, the text itself when there is one, and no row unit when there
  is none. Over a sheet the row units come out in row order under their row numbers,
  and the sort by row number leaves them so.
\<close>

theorem flattener_row_units:
  "collect_row_texts row [] = map cell_text (filter survives row)
   \<and> collect_rows 1 ws [] = flatten_spec 1 ws
   \<and> sort_key fst (collect_rows 1 ws []) = flatten_spec 1 ws"
  by (simp add: collect_row_texts_eq collect_rows_eq sort_flatten_spec)

theorem flattener_row_units_witness:
  "collect_rows 1 [[CStr ''=A1'', CStr '' Main '', CNone], [CStr '' a '', CStr ''MAIN'', CInt 7, CStr ''b''],
                   [CStr ''   '', CStr ''only'']] []
   = [(2, ''a | 7 | b''), (3, ''only'')]"
proof -
  let ?ws = "[[CStr ''=A1'', CStr '' Main '', CNone], [CStr '' a '', CStr ''MAIN'', CInt 7, CStr ''b''],
              [CStr ''   '', CStr ''only'']]"
  have a: "flatten_spec 1 ?ws = [(2, ''a | 7 | b''), (3, ''only'')]"
    by code_simp
  have b: "collect_rows 1 ?ws [] = flatten_spec 1 ?ws"
    using flattener_row_units by blast
  from b a show ?thesis by (rule trans)
qed

lemma re_sub_run_short:
  "length (takeWhile C s) < k \<Longrightarrow>
   re_sub_run C k repl s = takeWhile C s @ re_sub_run C k repl (dropWhile C s)"
  by (induction s) auto

lemma re_sub_run_outside:
  "re_sub_run C k repl s =
   takeWhile (\<lambda>x. \<not> C x) s @ re_sub_run C k repl (dropWhile (\<lambda>x. \<not> C x) s)"
  by (induction s) auto

lemma re_sub_run_runs:
  "re_sub_run C k repl s =
   concat (map (\<lambda>r. if list_all C r \<and> k \<le> length r then repl else r) (runs C s))"
proof (induction C s rule: runs.induct)
  case (1 C)
  show ?case by simp
next
  case (2 C c cs)
  show ?case
  proof (cases "C c")
    case True
    note Cc = this
    show ?thesis
    proof (cases "k \<le> Suc (length (takeWhile C cs))")
      case True
      with Cc 2 show ?thesis
        by (simp add: list_all_iff) (metis set_takeWhileD)
    next
      case False
      then have "length (takeWhile C cs) < k" by simp
      from re_sub_run_short [OF this] Cc 2 False show ?thesis
        by simp
    qed
  next
    case False
    with 2 re_sub_run_outside [of C k repl cs] show ?thesis
      by simp
  qed
qed

lemma runs_nonempty: "r \<in> set (runs C s) \<Longrightarrow> r \<noteq> []"
  by (induction C s rule: runs.induct) (auto split: if_splits)

lemma collapse_spaces_eq: "re_sub_run is_hspace 1 [SP] s = collapse_spaces_spec s"
proof -
  have "(if list_all is_hspace r \<and> 1 \<le> length r then [SP] else r) =
        (if list_all is_hspace r then [SP] else r)"
    if "r \<in> set (runs is_hspace s)" for r
    using runs_nonempty [OF that] by (cases r) auto
  then show ?thesis
    unfolding re_sub_run_runs collapse_spaces_spec_def
    by (intro arg_cong [where f = concat] map_cong) auto
qed

lemma collapse_newlines_eq: "re_sub_run is_nl 3 [NL, NL] s = collapse_newlines_spec s"
  by (simp add: re_sub_run_runs collapse_newlines_spec_def)

text \<open>
  The runs partition the string, each lies wholly inside or wholly outside the class,
  and neighbouring runs lie on different sides: the runs are maximal.
\<close>

lemma concat_runs: "concat (runs C s) = s"
  by (induction C s rule: runs.induct) auto

lemma runs_homogeneous:
  "r \<in> set (runs C s) \<Longrightarrow> (\<forall>c \<in> set r. C c) \<or> (\<forall>c \<in> set r. \<not> C c)"
proof (induction C s rule: runs.induct)
  case (1 C)
  then show ?case by simp
next
  case (2 C c cs)
  show ?case
  proof (cases "C c")
    case True
    with "2.prems" have "r = c # takeWhile C cs \<or> r \<in> set (runs C (dropWhile C cs))"
      by simp
    then show ?thesis
    proof
      assume "r = c # takeWhile C cs"
      with True have "\<forall>x \<in> set r. C x" by (auto dest: set_takeWhileD)
      then show ?thesis ..
    next
      assume "r \<in> set (runs C (dropWhile C cs))"
      with "2.IH"(1) True show ?thesis by blast
    qed
  next
    case False
    with "2.prems" have "r = c # takeWhile (\<lambda>x. \<not> C x) cs
        \<or> r \<in> set (runs C (dropWhile (\<lambda>x. \<not> C x) cs))"
      by simp
    then show ?thesis
    proof
      assume "r = c # takeWhile (\<lambda>x. \<not> C x) cs"
      with False have "\<forall>x \<in> set r. \<not> C x" by (auto dest: set_takeWhileD)
      then show ?thesis ..
    next
      assume "r \<in> set (runs C (dropWhile (\<lambda>x. \<not> C x) cs))"
      with "2.IH"(2) False show ?thesis by blast
    qed
  qed
qed

lemma runs_hd: "s \<noteq> [] \<Longrightarrow> hd (hd (runs C s)) = hd s"
  by (cases s) auto

lemma runs_Nil_iff: "(runs C s = []) = (s = [])"
  by (cases s) auto

lemma runs_alternate:
  "runs C s = pre @ r1 # r2 # post \<Longrightarrow> C (hd r1) \<noteq> C (hd r2)"
proof (induction C s arbitrary: pre rule: runs.induct)
  case (1 C)
  then show ?case by simp
next
  case (2 C c cs)
  let ?rest = "if C c then dropWhile C cs else dropWhile (\<lambda>x. \<not> C x) cs"
  let ?first = "if C c then c # takeWhile C cs else c # takeWhile (\<lambda>x. \<not> C x) cs"
  have eq: "runs C (c # cs) = ?first # runs C ?rest" by simp
  show ?case
  proof (cases pre)
    case Nil
    with "2.prems" eq have r1: "r1 = ?first" and rest: "runs C ?rest = r2 # post" by auto
    have ne: "?rest \<noteq> []"
    proof
      assume "?rest = []"
      then have "runs C ?rest = []" by (simp only: runs.simps(1))
      with rest show False by simp
    qed
    from rest have "hd r2 = hd (hd (runs C ?rest))" by simp
    also have "\<dots> = hd ?rest" using ne by (rule runs_hd)
    finally have h2: "hd r2 = hd ?rest" .
    show ?thesis
    proof (cases "C c")
      case True
      with ne hd_dropWhile [of C cs] h2 r1 show ?thesis by simp
    next
      case False
      with ne hd_dropWhile [of "\<lambda>x. \<not> C x" cs] h2 r1 show ?thesis by simp
    qed
  next
    case (Cons p pre')
    with "2.prems" eq have rest: "runs C ?rest = pre' @ r1 # r2 # post" by auto
    show ?thesis
    proof (cases "C c")
      case True
      with rest "2.IH"(1) [of pre'] show ?thesis by simp
    next
      case False
      with rest "2.IH"(2) [of pre'] show ?thesis by simp
    qed
  qed
qed

text \<open>
  Claim C7. For every string, \<open>clean_text\<close> returns what the specification's wording
  gives: trim, tabs to spaces, every run of whitespace other than newlines to one
  space, every run of three or more newlines to two, trim again; the empty string
  goes to the empty string.
\<close>

theorem clean_text_refines_spec:
  "clean_text text = clean_text_spec text"
  unfolding clean_text_def clean_text_spec_def collapse_spaces_eq collapse_newlines_eq
  by (rule refl)

theorem clean_text_refines_spec_witness:
  "clean_text_spec (''  a '' @ [TAB, TAB] @ '' b'' @ [NL, NL, NL, NL] @ ''c '') =
   ''a b'' @ [NL, NL] @ ''c''"
proof -
  have "clean_text (''  a '' @ [TAB, TAB] @ '' b'' @ [NL, NL, NL, NL] @ ''c '') =
        ''a b'' @ [NL, NL] @ ''c''"
    by code_simp
  then show ?thesis by (simp only: clean_text_refines_spec)
qed

section \<open>Cleaned text is in normal form\<close>

lemma SP_hspace: "is_hspace SP"
  by (simp add: is_hspace_def is_space_def whitespace_chars_def SP_def NL_def)

lemma TAB_hspace: "is_hspace TAB"
  by (simp add: is_hspace_def is_space_def whitespace_chars_def TAB_def NL_def)

lemma NL_not_hspace: "\<not> is_hspace NL"
  by (simp add: is_hspace_def)

lemma TAB_neq_SP: "TAB \<noteq> SP"
  by (simp add: SP_def TAB_def)

lemma re_sub_run_Nil_iff: "repl \<noteq> [] \<Longrightarrow> (re_sub_run C k repl s = []) = (s = [])"
  by (cases s) auto

lemma hd_collapse_newlines: "hd (re_sub_run is_nl 3 [NL, NL] s) = hd s"
  by (cases s) (auto simp: is_nl_def)

lemma hd_collapse_spaces:
  "s \<noteq> [] \<Longrightarrow> is_hspace (hd (re_sub_run is_hspace 1 [SP] s)) = is_hspace (hd s)"
  by (cases s) (auto simp: SP_hspace)

lemma hs_ok_dropWhile: "hs_ok s \<Longrightarrow> hs_ok (dropWhile P s)"
  by (induction s) auto

lemma nl_ok_dropWhile: "nl_ok s \<Longrightarrow> nl_ok (dropWhile P s)"
  by (induction s) auto

lemma hs_ok_prefix: "hs_ok (xs @ ys) \<Longrightarrow> hs_ok xs"
  by (induction xs) auto

lemma length_takeWhile_append: "length (takeWhile P xs) \<le> length (takeWhile P (xs @ ys))"
  by (induction xs) auto

lemma nl_ok_prefix: "nl_ok (xs @ ys) \<Longrightarrow> nl_ok xs"
proof (induction xs)
  case Nil
  show ?case by simp
next
  case (Cons x xs)
  then show ?case
    using length_takeWhile_append [of is_nl xs ys] by auto
qed

lemma rev_dropWhile_rev: "rev (dropWhile P (rev u)) @ rev (takeWhile P (rev u)) = u"
proof -
  have "rev (takeWhile P (rev u) @ dropWhile P (rev u)) = u"
    by (simp only: takeWhile_dropWhile_id rev_rev_ident)
  then show ?thesis by (simp only: rev_append)
qed

lemma strip_prefix: "dropWhile is_space s = strip s @ rev (takeWhile is_space (rev (dropWhile is_space s)))"
  unfolding strip_def by (rule rev_dropWhile_rev [symmetric])

lemma hs_ok_strip: "hs_ok s \<Longrightarrow> hs_ok (strip s)"
proof -
  assume "hs_ok s"
  then have "hs_ok (dropWhile is_space s)" by (rule hs_ok_dropWhile)
  then have "hs_ok (strip s @ rev (takeWhile is_space (rev (dropWhile is_space s))))"
    using strip_prefix [of s] by simp
  then show ?thesis by (rule hs_ok_prefix)
qed

lemma nl_ok_strip: "nl_ok s \<Longrightarrow> nl_ok (strip s)"
proof -
  assume "nl_ok s"
  then have "nl_ok (dropWhile is_space s)" by (rule nl_ok_dropWhile)
  then have "nl_ok (strip s @ rev (takeWhile is_space (rev (dropWhile is_space s))))"
    using strip_prefix [of s] by simp
  then show ?thesis by (rule nl_ok_prefix)
qed

lemma strip_hd: "strip s \<noteq> [] \<Longrightarrow> \<not> is_space (hd (strip s))"
proof -
  assume ne: "strip s \<noteq> []"
  have eq: "dropWhile is_space s = strip s @ rev (takeWhile is_space (rev (dropWhile is_space s)))"
    by (rule strip_prefix)
  have "hd (dropWhile is_space s) = hd (strip s)"
    by (subst eq) (simp only: hd_append2 [OF ne])
  moreover have "dropWhile is_space s \<noteq> []"
  proof
    assume "dropWhile is_space s = []"
    then have "strip s = []" by (simp only: strip_def rev.simps dropWhile.simps)
    with ne show False ..
  qed
  ultimately show ?thesis
    using hd_dropWhile [of is_space s] by simp
qed

lemma strip_last: "strip s \<noteq> [] \<Longrightarrow> \<not> is_space (last (strip s))"
proof -
  assume ne: "strip s \<noteq> []"
  then have "dropWhile is_space (rev (dropWhile is_space s)) \<noteq> []"
    by (simp add: strip_def)
  from hd_dropWhile [OF this] show ?thesis
    using ne by (simp add: strip_def last_rev)
qed

lemma strip_id: "s = [] \<or> (\<not> is_space (hd s) \<and> \<not> is_space (last s)) \<Longrightarrow> strip s = s"
proof (cases "s = []")
  case True
  then show ?thesis by (simp add: strip_def)
next
  case False
  assume "s = [] \<or> (\<not> is_space (hd s) \<and> \<not> is_space (last s))"
  with False have h: "\<not> is_space (hd s)" and l: "\<not> is_space (last s)" by auto
  from h False have a: "dropWhile is_space s = s" by (simp add: dropWhile_eq_self_iff)
  from l False have "dropWhile is_space (rev s) = rev s"
    by (simp add: dropWhile_eq_self_iff hd_rev)
  with a show ?thesis by (simp add: strip_def)
qed

lemma strip_strip: "strip (strip s) = strip s"
  using strip_hd [of s] strip_last [of s] by (intro strip_id) auto

lemma hs_ok_no_tabs: "hs_ok s \<Longrightarrow> replace_tabs s = s"
  by (induction s) (auto simp: replace_tabs_def TAB_hspace TAB_neq_SP)

lemma hs_ok_collapse_spaces_id: "hs_ok s \<Longrightarrow> re_sub_run is_hspace 1 [SP] s = s"
proof (induction s)
  case Nil
  show ?case by simp
next
  case (Cons c cs)
  then show ?case by (cases cs) auto
qed

lemma nl_ok_collapse_newlines_id: "nl_ok s \<Longrightarrow> re_sub_run is_nl 3 [NL, NL] s = s"
  by (induction s) (auto simp: is_nl_def)

lemma hs_ok_collapse_spaces: "hs_ok (re_sub_run is_hspace 1 [SP] s)"
proof (induction is_hspace "1::nat" "[SP]" s rule: re_sub_run.induct)
  case 1
  show ?case by simp
next
  case (2 c cs)
  show ?case
  proof (cases "is_hspace c")
    case True
    let ?rest = "dropWhile is_hspace cs"
    have "re_sub_run is_hspace 1 [SP] ?rest = [] \<or> \<not> is_hspace (hd (re_sub_run is_hspace 1 [SP] ?rest))"
      using hd_collapse_spaces [of ?rest] hd_dropWhile [of is_hspace cs]
      by (cases "?rest = []") (simp_all add: re_sub_run_Nil_iff)
    with True 2 show ?thesis by simp
  next
    case False
    with 2 show ?thesis by simp
  qed
qed

lemma hs_ok_collapse_newlines: "hs_ok s \<Longrightarrow> hs_ok (re_sub_run is_nl 3 [NL, NL] s)"
proof (induction is_nl "3::nat" "[NL, NL]" s rule: re_sub_run.induct)
  case 1
  show ?case by simp
next
  case (2 c cs)
  from "2.prems" have cs: "hs_ok cs" by simp
  show ?case
  proof (cases "is_nl c \<and> 3 \<le> length (takeWhile is_nl (c # cs))")
    case True
    then have eq: "re_sub_run is_nl 3 [NL, NL] (c # cs) =
        [NL, NL] @ re_sub_run is_nl 3 [NL, NL] (dropWhile is_nl cs)"
      by (simp only: re_sub_run.simps(2) simp_thms if_True)
    have "hs_ok (re_sub_run is_nl 3 [NL, NL] (dropWhile is_nl cs))"
      using 2 True cs hs_ok_dropWhile by blast
    then show ?thesis unfolding eq by (simp add: NL_not_hspace)
  next
    case False
    then have eq: "re_sub_run is_nl 3 [NL, NL] (c # cs) = c # re_sub_run is_nl 3 [NL, NL] cs"
      by (simp only: re_sub_run.simps(2) if_False)
    have "hs_ok (re_sub_run is_nl 3 [NL, NL] cs)"
      using 2 False cs by blast
    with "2.prems" show ?thesis unfolding eq
      by (simp add: hd_collapse_newlines re_sub_run_Nil_iff)
  qed
qed

lemma takeWhile_collapse_newlines_rest:
  "takeWhile is_nl (re_sub_run is_nl 3 [NL, NL] (dropWhile is_nl cs)) = []"
  using hd_dropWhile [of is_nl cs]
  by (cases "dropWhile is_nl cs = []") (simp_all add: takeWhile_eq_Nil_iff hd_collapse_newlines re_sub_run_Nil_iff)

lemma nl_ok_collapse_newlines: "nl_ok (re_sub_run is_nl 3 [NL, NL] s)"
proof (induction is_nl "3::nat" "[NL, NL]" s rule: re_sub_run.induct)
  case 1
  show ?case by simp
next
  case (2 c cs)
  show ?case
  proof (cases "is_nl c \<and> 3 \<le> length (takeWhile is_nl (c # cs))")
    case True
    then have eq: "re_sub_run is_nl 3 [NL, NL] (c # cs) =
        [NL, NL] @ re_sub_run is_nl 3 [NL, NL] (dropWhile is_nl cs)"
      by (simp only: re_sub_run.simps(2) simp_thms if_True)
    have "nl_ok (re_sub_run is_nl 3 [NL, NL] (dropWhile is_nl cs))"
      using 2 True by blast
    then show ?thesis unfolding eq
      by (simp add: takeWhile_collapse_newlines_rest is_nl_def [of NL])
  next
    case False
    then have eq: "re_sub_run is_nl 3 [NL, NL] (c # cs) = c # re_sub_run is_nl 3 [NL, NL] cs"
      by (simp only: re_sub_run.simps(2) if_False)
    have ih: "nl_ok (re_sub_run is_nl 3 [NL, NL] cs)"
      using 2 False by blast
    show ?thesis
    proof (cases "c = NL")
      case True
      with False have short: "length (takeWhile is_nl cs) < 2"
        by (simp add: is_nl_def)
      then have short3: "length (takeWhile is_nl cs) < 3" by simp
      have "\<forall>x \<in> set (takeWhile is_nl cs). is_nl x"
        by (auto dest: set_takeWhileD)
      then have "takeWhile is_nl (re_sub_run is_nl 3 [NL, NL] cs) = takeWhile is_nl cs"
        unfolding re_sub_run_short [OF short3]
        using takeWhile_collapse_newlines_rest [of cs]
        by (simp add: takeWhile_append)
      with short ih show ?thesis unfolding eq by simp
    next
      case False
      with ih show ?thesis unfolding eq by simp
    qed
  qed
qed

lemma clean_text_normal:
  "strip (clean_text s) = clean_text s \<and> hs_ok (clean_text s) \<and> nl_ok (clean_text s)"
  by (simp del: One_nat_def
      add: clean_text_def strip_strip hs_ok_strip nl_ok_strip hs_ok_collapse_newlines
        hs_ok_collapse_spaces nl_ok_collapse_newlines strip_def [of "[]"])

lemma clean_text_fixed:
  "strip s = s \<Longrightarrow> hs_ok s \<Longrightarrow> nl_ok s \<Longrightarrow> clean_text s = s"
  by (simp del: One_nat_def
      add: clean_text_def hs_ok_no_tabs hs_ok_collapse_spaces_id nl_ok_collapse_newlines_id)

lemma clean_text_idem: "clean_text (clean_text s) = clean_text s"
  using clean_text_normal [of s] by (intro clean_text_fixed) auto

section \<open>Pairs emitted by the segmentation loop\<close>

lemma seg_inv_init: "seg_inv P S rows seg_init"
  by (simp add: seg_inv_def seg_init_def)

lemma save_pending_ok:
  assumes "seg_inv P S rows st"
  shows "\<forall>p \<in> set (save_pending P S st). emitted_ok P S rows p"
proof (cases "current_question st")
  case None
  with assms show ?thesis by (simp add: save_pending_def seg_inv_def)
next
  case (Some q)
  with assms have q: "q \<noteq> []" "is_question q" "\<exists>r \<in> set rows. q = clean_text (snd r)"
    by (auto simp: seg_inv_def)
  then have fixq: "clean_text q = q" by (auto simp: clean_text_idem)
  from assms have old: "\<forall>p \<in> set (qa_pairs st). emitted_ok P S rows p"
    by (simp add: seg_inv_def)
  show ?thesis
    using Some q fixq old
    by (auto simp: save_pending_def Let_def emitted_ok_def clean_text_idem)
qed

lemma seg_step_inv:
  assumes "seg_inv P S rows st" and "r \<in> set rows"
  shows "seg_inv P S rows (seg_step P S st r)"
proof -
  note ok = save_pending_ok [OF assms(1)]
  show ?thesis
  proof (cases "clean_text (snd r) = []")
    case True
    with assms show ?thesis by (simp add: seg_step_def)
  next
    case False
    show ?thesis
    proof (cases "is_question (clean_text (snd r))")
      case True
      with False ok assms(2) show ?thesis
        by (auto simp: seg_step_def seg_inv_def)
    next
      case False
      with assms(1) show ?thesis
        by (auto simp: seg_step_def seg_inv_def Let_def)
    qed
  qed
qed

lemma foldl_seg_step_inv:
  "seg_inv P S rows st \<Longrightarrow> set rs \<subseteq> set rows \<Longrightarrow>
   seg_inv P S rows (foldl (seg_step P S) st rs)"
  by (induction rs arbitrary: st) (auto intro: seg_step_inv)

lemma segment_ok: "p \<in> set (segment P S rows) \<Longrightarrow> emitted_ok P S rows p"
  using save_pending_ok [OF foldl_seg_step_inv [OF seg_inv_init subset_refl], of P S rows]
  by (simp add: segment_def)

lemma is_question_nonempty: "is_question t \<Longrightarrow> t \<noteq> []"
  by (auto simp: is_question_def strip_def)

lemma seg_step_question:
  "is_question (clean_text t) \<Longrightarrow>
   seg_step P S st (n, t) =
     \<lparr>qa_pairs = save_pending P S st, current_question = Some (clean_text t),
      current_answer_parts = []\<rparr>"
  by (auto simp: seg_step_def Let_def dest: is_question_nonempty)

lemma save_pending_no_parts:
  "current_answer_parts st = [] \<Longrightarrow> save_pending P S st = qa_pairs st"
  by (simp add: save_pending_def split: option.splits)

lemma save_pending_no_question:
  "current_question st = None \<Longrightarrow> save_pending P S st = qa_pairs st"
  by (simp add: save_pending_def)

lemma seg_step_orphan:
  "\<not> is_question (clean_text t) \<Longrightarrow> current_question st = None \<Longrightarrow> seg_step P S st (n, t) = st"
  by (simp add: seg_step_def Let_def)

lemma foldl_orphans:
  "\<forall>r \<in> set pre. \<not> is_question (clean_text (snd r)) \<Longrightarrow>
   foldl (seg_step P S) seg_init pre = seg_init"
proof (induction pre rule: rev_induct)
  case Nil
  show ?case by simp
next
  case (snoc r pre)
  then show ?case
    using seg_step_orphan [of "snd r" seg_init P S "fst r"]
    by (simp add: seg_init_def)
qed

lemma seg_step_blank: "clean_text (snd r) = [] \<Longrightarrow> seg_step P S st r = st"
  by (simp add: seg_step_def)

lemma foldl_blank:
  "\<forall>r \<in> set mid. clean_text (snd r) = [] \<Longrightarrow> foldl (seg_step P S) st mid = st"
  by (induction mid) (simp_all add: seg_step_blank)

lemma trailing_question:
  "is_question (clean_text t) \<Longrightarrow> \<forall>r \<in> set mid. clean_text (snd r) = [] \<Longrightarrow>
   segment P S (rows @ (n, t) # mid) = segment P S rows"
  by (simp add: segment_def seg_step_question save_pending_no_parts foldl_blank)

lemma superseded_question:
  "is_question (clean_text t) \<Longrightarrow> \<forall>r \<in> set mid. clean_text (snd r) = [] \<Longrightarrow>
   is_question (clean_text u) \<Longrightarrow>
   segment P S (xs @ (n, t) # mid @ (m, u) # ys) = segment P S (xs @ (m, u) # ys)"
  by (simp add: segment_def seg_step_question save_pending_no_parts foldl_blank)

lemma leading_answers:
  "\<forall>r \<in> set pre. \<not> is_question (clean_text (snd r)) \<Longrightarrow>
   segment P S (pre @ rows) = segment P S rows"
  by (simp add: segment_def foldl_orphans)


lemma segment_Nil: "segment P S [] = []"
  by (simp add: segment_def seg_init_def save_pending_def)

text \<open>
  Claim C4. A pending question that no answer part follows, because the sheet ends or
  another question row comes first (only blank rows, if any, in between), produces no
  pair: the result is the same as without that row. Rows that are not questions and
  come before any question produce no pair either. The single row "What is X?" yields
  0 pairs, and the three rows of the rate scenario yield exactly 1 pair, the intro line
  being discarded.
\<close>

theorem dangling_and_orphans_dropped:
  "(is_question (clean_text t) \<and> (\<forall>r \<in> set mid. clean_text (snd r) = []) \<longrightarrow>
      segment P S (rows @ (n, t) # mid) = segment P S rows)
   \<and> (is_question (clean_text t) \<and> (\<forall>r \<in> set mid. clean_text (snd r) = [])
        \<and> is_question (clean_text u) \<longrightarrow>
        segment P S (xs @ (n, t) # mid @ (m, u) # ys) = segment P S (xs @ (m, u) # ys))
   \<and> ((\<forall>r \<in> set pre. \<not> is_question (clean_text (snd r))) \<longrightarrow>
        segment P S (pre @ rows) = segment P S rows)
   \<and> length (segment P S [(1, ''What is X?'')]) = 0
   \<and> segment P S [(1, ''Note: rates subject to change.''), (2, ''What is the rate?''),
                    (3, ''5% APR.'')] =
       [\<lparr>question = ''What is the rate?'', answer = ''5% APR.'', product = P, sheet = S\<rparr>]"
proof -
  have x: "is_question (clean_text ''What is X?'')" by code_simp
  have "segment P S ([] @ (1, ''What is X?'') # []) = segment P S []"
    using x by (intro trailing_question) simp_all
  then have one: "length (segment P S [(1, ''What is X?'')]) = 0"
    by (simp add: segment_Nil)
  have intro_row: "\<not> is_question (clean_text ''Note: rates subject to change.'')" by code_simp
  have cq: "clean_text ''What is the rate?'' = ''What is the rate?''" by code_simp
  have iq: "is_question ''What is the rate?''" by code_simp
  have ca: "clean_text ''5% APR.'' = ''5% APR.''" by code_simp
  have na: "\<not> is_question ''5% APR.''" by code_simp
  have "segment P S ([(1, ''Note: rates subject to change.'')] @
            [(2, ''What is the rate?''), (3, ''5% APR.'')]) =
        segment P S [(2, ''What is the rate?''), (3, ''5% APR.'')]"
    using intro_row by (intro leading_answers) simp
  moreover have "segment P S [(2, ''What is the rate?''), (3, ''5% APR.'')] =
      [\<lparr>question = ''What is the rate?'', answer = ''5% APR.'', product = P, sheet = S\<rparr>]"
    by (simp add: segment_def seg_step_def seg_init_def save_pending_def Let_def cq iq ca na)
  ultimately have two: "segment P S [(1, ''Note: rates subject to change.''),
      (2, ''What is the rate?''), (3, ''5% APR.'')] =
      [\<lparr>question = ''What is the rate?'', answer = ''5% APR.'', product = P, sheet = S\<rparr>]"
    by simp
  show ?thesis
    using one two trailing_question [of t mid P S rows n]
      superseded_question [of t mid u P S xs n m ys] leading_answers [of pre P S rows]
    by blast
qed

theorem dangling_and_orphans_dropped_witness:
  "is_question (clean_text ''Why?'')
   \<and> clean_text ''  '' = []
   \<and> segment ''P'' ''S'' ([(1, ''What is X?''), (2, ''Y.'')] @ (3, ''Why?'') # [(4, ''  '')]) =
       [\<lparr>question = ''What is X?'', answer = ''Y.'', product = ''P'', sheet = ''S''\<rparr>]
   \<and> is_question (clean_text ''What is X?'')
   \<and> segment ''P'' ''S'' ([] @ (1, ''Why?'') # [(4, ''  '')] @ (2, ''What is X?'') # [(3, ''Y.'')]) =
       [\<lparr>question = ''What is X?'', answer = ''Y.'', product = ''P'', sheet = ''S''\<rparr>]
   \<and> \<not> is_question (clean_text ''Intro.'')
   \<and> segment ''P'' ''S'' ([(1, ''Intro.'')] @ [(2, ''What is X?''), (3, ''Y.'')]) =
       [\<lparr>question = ''What is X?'', answer = ''Y.'', product = ''P'', sheet = ''S''\<rparr>]"
proof -
  have a: "is_question (clean_text ''Why?'')" by code_simp
  have q: "is_question (clean_text ''What is X?'')" by code_simp
  have blank: "clean_text ''  '' = []" by code_simp
  have intro_row: "\<not> is_question (clean_text ''Intro.'')" by code_simp
  from blank have a': "\<forall>r \<in> set [(4::nat, ''  '')]. clean_text (snd r) = []" by simp
  from intro_row have b: "\<forall>r \<in> set [(1::nat, ''Intro.'')]. \<not> is_question (clean_text (snd r))"
    by simp
  have c: "segment ''P'' ''S'' [(1, ''What is X?''), (2, ''Y.'')] =
       [\<lparr>question = ''What is X?'', answer = ''Y.'', product = ''P'', sheet = ''S''\<rparr>]"
    by code_simp
  have d: "segment ''P'' ''S'' [(2, ''What is X?''), (3, ''Y.'')] =
       [\<lparr>question = ''What is X?'', answer = ''Y.'', product = ''P'', sheet = ''S''\<rparr>]"
    by code_simp
  have "segment ''P'' ''S'' ([(1, ''What is X?''), (2, ''Y.'')] @ (3, ''Why?'') # [(4, ''  '')]) =
        segment ''P'' ''S'' [(1, ''What is X?''), (2, ''Y.'')]"
    using a a' dangling_and_orphans_dropped
      [of "''Why?''" "[(4, ''  '')]" "''P''" "''S''" "[(1, ''What is X?''), (2, ''Y.'')]" 3]
    by blast
  moreover have "segment ''P'' ''S'' ([(1, ''Intro.'')] @ [(2, ''What is X?''), (3, ''Y.'')]) =
        segment ''P'' ''S'' [(2, ''What is X?''), (3, ''Y.'')]"
    using b dangling_and_orphans_dropped
      [of _ _ "''P''" "''S''" "[(2, ''What is X?''), (3, ''Y.'')]" _ _ _ _ _ "[(1, ''Intro.'')]"]
    by blast
  moreover have "segment ''P'' ''S''
          ([] @ (1, ''Why?'') # [(4, ''  '')] @ (2, ''What is X?'') # [(3, ''Y.'')]) =
        segment ''P'' ''S'' ([] @ (2, ''What is X?'') # [(3, ''Y.'')])"
    using a a' q dangling_and_orphans_dropped
      [of "''Why?''" "[(4, ''  '')]" "''P''" "''S''" _ 1 "''What is X?''" "[]" 2 "[(3, ''Y.'')]"]
    by blast
  ultimately show ?thesis using a q blank intro_row c d by simp
qed

lemma foldl_current_question:
  "current_question (foldl (seg_step P S) seg_init rows) = Some q \<Longrightarrow> clean_text q = q"
  using foldl_seg_step_inv [OF seg_inv_init subset_refl, of P S rows]
  by (auto simp: seg_inv_def clean_text_idem)

text \<open>
  Claim C10. \<open>clean_text\<close> is idempotent. Hence the question the loop holds pending
  is left unchanged by the second normalisation at emission time, and every emitted
  question is the once-normalised text of a row.
\<close>

theorem clean_text_idempotent:
  "clean_text (clean_text s) = clean_text s
   \<and> (\<forall>q. current_question (foldl (seg_step P S) seg_init rows) = Some q \<longrightarrow> clean_text q = q)
   \<and> (\<forall>p \<in> set (segment P S rows). \<exists>r \<in> set rows. question p = clean_text (snd r))"
  using segment_ok [of _ P S rows] foldl_current_question [of P S rows]
  by (auto simp: clean_text_idem emitted_ok_def)

theorem clean_text_idempotent_witness:
  "current_question (foldl (seg_step ''P'' ''S'') seg_init [(1, '' What   is X? '')]) =
     Some ''What is X?''
   \<and> clean_text ''What is X?'' = ''What is X?''
   \<and> clean_text (clean_text '' What   is X? '') = ''What is X?''
   \<and> segment ''P'' ''S'' [(1, '' What   is X? ''), (2, ''Y.'')] =
       [\<lparr>question = ''What is X?'', answer = ''Y.'', product = ''P'', sheet = ''S''\<rparr>]
   \<and> ''What is X?'' \<in> {clean_text '' What   is X? '', clean_text ''Y.''}"
proof -
  have a: "current_question (foldl (seg_step ''P'' ''S'') seg_init [(1, '' What   is X? '')]) =
     Some ''What is X?''"
    by code_simp
  have b: "clean_text '' What   is X? '' = ''What is X?''" by code_simp
  from a clean_text_idempotent [of _ "''P''" "''S''" "[(1, '' What   is X? '')]"]
  have c: "clean_text ''What is X?'' = ''What is X?''" by blast
  have "clean_text (clean_text '' What   is X? '') = clean_text '' What   is X? ''"
    using clean_text_idempotent by blast
  with b have d: "clean_text (clean_text '' What   is X? '') = ''What is X?''" by simp
  have e: "segment ''P'' ''S'' [(1, '' What   is X? ''), (2, ''Y.'')] =
       [\<lparr>question = ''What is X?'', answer = ''Y.'', product = ''P'', sheet = ''S''\<rparr>]"
    by code_simp
  then have "\<lparr>question = ''What is X?'', answer = ''Y.'', product = ''P'', sheet = ''S''\<rparr>
      \<in> set (segment ''P'' ''S'' [(1, '' What   is X? ''), (2, ''Y.'')])"
    by simp
  with clean_text_idempotent [of _ "''P''" "''S''" "[(1, '' What   is X? ''), (2, ''Y.'')]"]
  have "\<exists>r \<in> set [(1::nat, '' What   is X? ''), (2, ''Y.'')].
          question \<lparr>question = ''What is X?'', answer = ''Y.'', product = ''P'', sheet = ''S''\<rparr>
            = clean_text (snd r)"
    by blast
  then have f: "''What is X?'' \<in> {clean_text '' What   is X? '', clean_text ''Y.''}"
    by auto
  from a c d e f show ?thesis by blast
qed

section \<open>Provenance of the collected pairs\<close>

lemma extract_qa_from_sheet_unfold:
  "extract_qa_from_sheet ws name =
     (case flatten_spec 1 ws of
        [] \<Rightarrow> []
      | r # rs \<Rightarrow>
          segment (infer_product_name ws name) name
            (if strip (snd r) = strip (infer_product_name ws name) then rs else r # rs))"
  by (simp add: extract_qa_from_sheet_def collect_rows_eq sort_flatten_spec Let_def
      split: list.splits)

lemma extract_ok:
  assumes "p \<in> set (extract_qa_from_sheet ws name)"
  shows "question p \<noteq> [] \<and> clean_text (question p) = question p
     \<and> answer p \<noteq> [] \<and> clean_text (answer p) = answer p
     \<and> product p = infer_product_name ws name \<and> sheet p = name"
proof -
  from assms obtain rows where "p \<in> set (segment (infer_product_name ws name) name rows)"
    by (auto simp: extract_qa_from_sheet_unfold split: list.splits if_splits)
  from segment_ok [OF this] show ?thesis
    by (auto simp: emitted_ok_def clean_text_idem)
qed

lemma extract_sheets_mem:
  "p \<in> set (extract_sheets wb all_qa) \<Longrightarrow>
   p \<in> set all_qa
   \<or> (\<exists>(n, ws) \<in> set wb. n \<notin> set SKIP_SHEETS \<and> p \<in> set (extract_qa_from_sheet ws n))"
proof (induction wb arbitrary: all_qa)
  case Nil
  then show ?case by simp
next
  case (Cons a wb)
  obtain n ws where a: "a = (n, ws)" by (cases a)
  show ?case
  proof (cases "n \<in> set SKIP_SHEETS")
    case True
    with Cons.prems a have "p \<in> set (extract_sheets wb all_qa)" by simp
    from Cons.IH [OF this] show ?thesis by auto
  next
    case False
    with Cons.prems a have "p \<in> set (extract_sheets wb (all_qa @ extract_qa_from_sheet ws n))"
      by simp
    from Cons.IH [OF this] False a show ?thesis by auto
  qed
qed

lemma merge_questions_mem:
  "p \<in> set (merge_questions cat_name qs all_qa) \<Longrightarrow>
   p \<in> set all_qa
   \<or> (\<exists>q \<in> set qs. question p = clean_text (item_question q)
        \<and> answer p = clean_text (item_answer q)
        \<and> product p = ''Mobile App '' @ EN_DASH @ '' '' @ cat_name \<and> sheet p = FAQ_SHEET)"
proof (induction qs arbitrary: all_qa)
  case Nil
  then show ?case by simp
next
  case (Cons q qs)
  from Cons.IH [of "all_qa @
          [\<lparr>question = clean_text (item_question q), answer = clean_text (item_answer q),
            product = ''Mobile App '' @ EN_DASH @ '' '' @ cat_name, sheet = FAQ_SHEET\<rparr>]"]
    Cons.prems
  show ?case by auto
qed

lemma merge_faq_mem:
  "p \<in> set (merge_faq cats all_qa) \<Longrightarrow>
   p \<in> set all_qa
   \<or> (\<exists>c \<in> set cats. \<exists>q \<in> set (questions c).
        question p = clean_text (item_question q) \<and> answer p = clean_text (item_answer q)
        \<and> product p \<noteq> [] \<and> sheet p = FAQ_SHEET)"
proof (induction cats arbitrary: all_qa)
  case Nil
  then show ?case by simp
next
  case (Cons c cats)
  let ?cat_name = "case category c of None \<Rightarrow> ''General'' | Some n \<Rightarrow> n"
  from Cons.prems have "p \<in> set (merge_faq cats (merge_questions ?cat_name (questions c) all_qa))"
    by (simp add: Let_def)
  from Cons.IH [OF this] consider
      "p \<in> set (merge_questions ?cat_name (questions c) all_qa)"
    | "\<exists>c \<in> set cats. \<exists>q \<in> set (questions c).
        question p = clean_text (item_question q) \<and> answer p = clean_text (item_answer q)
        \<and> product p \<noteq> [] \<and> sheet p = FAQ_SHEET"
    by blast
  then show ?case
  proof cases
    case 1
    from merge_questions_mem [OF this] show ?thesis by auto
  next
    case 2
    then show ?thesis by auto
  qed
qed

lemma scan_title_row_exact:
  "scan_title_row row name =
     (case filter scan_accepts row of [] \<Rightarrow> name | cell # _ \<Rightarrow> strip (py_str cell))"
  by (induction row) (auto simp: scan_accepts_def Let_def)

lemma infer_product_name_exact:
  "infer_product_name ws name =
     (case filter scan_accepts (concat (take 1 ws)) of
        [] \<Rightarrow> name
      | cell # _ \<Rightarrow> strip (py_str cell))"
  by (cases ws) (simp_all add: infer_product_name_def scan_title_row_exact)

lemma infer_product_name_nonempty:
  "(case filter scan_accepts (concat (take 1 ws)) of
      [] \<Rightarrow> name \<noteq> []
    | cell # _ \<Rightarrow> strip (py_str cell) \<noteq> []) \<Longrightarrow>
   infer_product_name ws name \<noteq> []"
  by (simp add: infer_product_name_exact split: list.splits)

lemma FAQ_SHEET_nonempty: "FAQ_SHEET \<noteq> []"
  by (simp add: FAQ_SHEET_def)

text \<open>
  Claim C1, as amended. Every pair of the run-wide collection comes from a sheet that is
  not skipped or from the FAQ. A pair from a sheet has a question and an answer that are
  non-empty after normalisation, the sheet's name as sheet and the sheet's inferred
  product name as product. The sheet field is non-empty when the sheet's name is; the
  product field is non-empty when the first cell of the first row that passes the three
  tests of the title scan is not blank after trimming, or, no cell passing them, when
  the sheet's name is non-empty. A pair from the FAQ has
  a non-empty product and sheet, and as question and answer the normalised fields of
  an FAQ entry, whatever they are.
\<close>

theorem collected_pairs_provenance:
  assumes "p \<in> set (collect_all wb faq)"
  shows "(\<exists>(n, ws) \<in> set wb. n \<notin> set SKIP_SHEETS \<and> p \<in> set (extract_qa_from_sheet ws n)
            \<and> clean_text (question p) \<noteq> [] \<and> clean_text (answer p) \<noteq> []
            \<and> sheet p = n \<and> product p = infer_product_name ws n
            \<and> (n \<noteq> [] \<longrightarrow> sheet p \<noteq> [])
            \<and> ((case filter scan_accepts (concat (take 1 ws)) of
                    [] \<Rightarrow> n \<noteq> []
                  | cell # _ \<Rightarrow> strip (py_str cell) \<noteq> [])
                 \<longrightarrow> product p \<noteq> []))
      \<or> (\<exists>cats. faq = Some cats
            \<and> (\<exists>c \<in> set cats. \<exists>q \<in> set (questions c).
                  question p = clean_text (item_question q)
                  \<and> answer p = clean_text (item_answer q))
            \<and> product p \<noteq> [] \<and> sheet p \<noteq> [])"
proof -
  have sheets: "?thesis" if "p \<in> set (extract_sheets wb [])"
  proof -
    from extract_sheets_mem [OF that] obtain n ws where
      m: "(n, ws) \<in> set wb" "n \<notin> set SKIP_SHEETS" "p \<in> set (extract_qa_from_sheet ws n)"
      by auto
    from extract_ok [OF m(3)] infer_product_name_nonempty [of n ws] m show ?thesis
      by (intro disjI1 bexI [of _ "(n, ws)"]) auto
  qed
  show ?thesis
  proof (cases faq)
    case None
    with assms sheets show ?thesis by (simp add: collect_all_def)
  next
    case (Some cats)
    with assms have "p \<in> set (merge_faq cats (extract_sheets wb []))"
      by (simp add: collect_all_def)
    from merge_faq_mem [OF this] show ?thesis
    proof
      assume "p \<in> set (extract_sheets wb [])"
      then show ?thesis by (rule sheets)
    next
      assume "\<exists>c \<in> set cats. \<exists>q \<in> set (questions c).
        question p = clean_text (item_question q) \<and> answer p = clean_text (item_answer q)
        \<and> product p \<noteq> [] \<and> sheet p = FAQ_SHEET"
      with Some FAQ_SHEET_nonempty show ?thesis by auto
    qed
  qed
qed

theorem collected_pairs_provenance_witness:
  "\<lparr>question = ''What is X?'', answer = ''Y.'', product = ''Title'', sheet = ''Other''\<rparr>
     \<in> set (collect_all
              [(''Other'', [[CStr ''Title'', CStr '' ''], [CStr ''What is X?''], [CStr ''Y.'']])]
              None)
   \<and> ''Other'' \<notin> set SKIP_SHEETS
   \<and> filter scan_accepts [CStr ''Title'', CStr '' ''] = [CStr ''Title'', CStr '' '']
   \<and> strip (py_str (CStr ''Title'')) \<noteq> []
   \<and> infer_product_name [[CStr ''Title'', CStr '' ''], [CStr ''What is X?''], [CStr ''Y.'']]
         ''Other'' \<noteq> []
   \<and> clean_text ''What is X?'' \<noteq> [] \<and> clean_text ''Y.'' \<noteq> []"
proof -
  let ?ws = "[[CStr ''Title'', CStr '' ''], [CStr ''What is X?''], [CStr ''Y.'']]"
  let ?p = "\<lparr>question = ''What is X?'', answer = ''Y.'', product = ''Title'',
            sheet = ''Other''\<rparr>"
  have a: "?p \<in> set (collect_all [(''Other'', ?ws)] None)"
    by code_simp
  have b: "filter scan_accepts [CStr ''Title'', CStr '' ''] = [CStr ''Title'', CStr '' '']"
    by code_simp
  have c: "strip (py_str (CStr ''Title'')) \<noteq> []" by code_simp
  have d: "''Other'' \<notin> set SKIP_SHEETS" by (simp add: SKIP_SHEETS_def)
  from collected_pairs_provenance [OF a]
  have e: "clean_text (question ?p) \<noteq> [] \<and> clean_text (answer ?p) \<noteq> []
      \<and> product ?p = infer_product_name ?ws ''Other''
      \<and> ((case filter scan_accepts (concat (take 1 ?ws)) of
              [] \<Rightarrow> ''Other'' \<noteq> []
            | cell # _ \<Rightarrow> strip (py_str cell) \<noteq> [])
           \<longrightarrow> product ?p \<noteq> [])"
    by simp
  have "case filter scan_accepts (concat (take 1 ?ws)) of
          [] \<Rightarrow> ''Other'' \<noteq> []
        | cell # _ \<Rightarrow> strip (py_str cell) \<noteq> []"
    using b c by simp
  with e have "infer_product_name ?ws ''Other'' \<noteq> []" by metis
  with a b c d e show ?thesis by simp
qed

text \<open>
  Claim C1 as stated fails for the FAQ merge: an entry whose question is blank is
  appended with the empty question.
\<close>

theorem faq_blank_question_counterexample:
  "collect_all []
     (Some [\<lparr>category = Some ''Cards'',
             questions = [\<lparr>item_question = ''   '', item_answer = ''Yes.''\<rparr>]\<rparr>]) =
   [\<lparr>question = [], answer = ''Yes.'',
     product = ''Mobile App '' @ EN_DASH @ '' Cards'', sheet = FAQ_SHEET\<rparr>]
   \<and> clean_text [] = []"
  by code_simp

section \<open>The product name against the specification\<close>

text \<open>
  The scan of the title row tests the raw cell value for truth, the flattener tests
  the trimmed text for emptiness. Where both tests agree on the first row, the product
  name is the one the specification words.
\<close>

lemma scan_title_row_agrees:
  "\<forall>cell \<in> set row. truthy cell = (cell \<noteq> CNone \<and> cell_text cell \<noteq> []) \<Longrightarrow>
   scan_title_row row name =
     (case filter survives row of [] \<Rightarrow> name | cell # _ \<Rightarrow> cell_text cell)"
  by (induction row) (auto simp: survives_def cell_text_def Let_def)

lemma infer_product_name_agrees:
  "\<forall>cell \<in> set (concat (take 1 ws)). truthy cell = (cell \<noteq> CNone \<and> cell_text cell \<noteq> []) \<Longrightarrow>
   infer_product_name ws name = product_name_spec ws name"
  by (cases ws) (simp_all add: infer_product_name_def product_name_spec_def scan_title_row_agrees)

text \<open>
  Claim C3. The product name is the text of the first cell of the first row that is
  non-empty, not the marker "main" and not a formula, or else the sheet's name. On a
  first row that starts with a cell of blanks followed by the title, the scan of the
  source stops at the blank cell and returns the empty string, where the claim gives
  the title; the flattener, applying the same three tests after trimming, drops the
  blank cell and keeps the title.
\<close>

theorem title_scan_blank_cell:
  "infer_product_name [[CStr ''   '', CStr ''Savings Account'']] ''Savings'' = []
   \<and> product_name_spec [[CStr ''   '', CStr ''Savings Account'']] ''Savings'' = ''Savings Account''
   \<and> collect_rows 1 [[CStr ''   '', CStr ''Savings Account'']] [] = [(1, ''Savings Account'')]"
  by code_simp

lemma title_scan_zero_cell:
  "infer_product_name [[CInt 0, CStr ''Savings Account'']] ''Savings'' = ''Savings Account''
   \<and> product_name_spec [[CInt 0, CStr ''Savings Account'']] ''Savings'' = ''0''"
  by code_simp

end
